theory Spec2Isabelle
  imports Complex_Main "HOL-Library.Sublist"
begin

section \<open>The parsed page\<close>

text \<open>
  \<^verbatim>\<open>cheerio.load(html)\<close> turns the fetched markup into a tree of nodes. A node is a
  text node, a comment, or an element with a tag name, its attributes (name and value,
  in source order) and its children. The document is the list of the root's children.
  Strings are lists of 8-bit characters, read as the code units U+0000 to U+00FF.
\<close>

datatype node =
    Text string
  | Comment string
  | Element string "(string \<times> string) list" "node list"

type_synonym document = "node list"

text \<open>
  A node of the document is identified by its path: the child indices leading from the
  root to it. A selection (a cheerio object) is a list of nodes with their paths.
\<close>

type_synonym path = "nat list"
type_synonym selection = "(path \<times> node) list"

text \<open>Document order: a node comes before its children, children from left to right.\<close>

fun preorder :: "path \<Rightarrow> node \<Rightarrow> selection"
  and preorder_list :: "path \<Rightarrow> nat \<Rightarrow> node list \<Rightarrow> selection" where
  "preorder p (Text s) = [(p, Text s)]"
| "preorder p (Comment s) = [(p, Comment s)]"
| "preorder p (Element t a cs) = (p, Element t a cs) # preorder_list p 0 cs"
| "preorder_list p i [] = []"
| "preorder_list p i (c # cs) = preorder (p @ [i]) c @ preorder_list p (Suc i) cs"

definition all_nodes :: "document \<Rightarrow> selection" where
  "all_nodes doc = preorder_list [] 0 doc"

subsection \<open>Selectors\<close>

text \<open>
  The characters that the regular expression class \<^verbatim>\<open>\s\<close> and the grammar's
  StrWhiteSpaceChar accept, among the code units below 256: TAB, LF, VT, FF, CR, SP, NBSP.
\<close>

definition is_space :: "char \<Rightarrow> bool" where
  "is_space c = (c \<in> set [CHR 0x09, CHR 0x0A, CHR 0x0B, CHR 0x0C, CHR 0x0D, CHR 0x20, CHR 0xA0])"

text \<open>The whitespace-separated tokens of an attribute value.\<close>

fun tokens_acc :: "string \<Rightarrow> string \<Rightarrow> string list" where
  "tokens_acc cur [] = (if cur = [] then [] else [cur])"
| "tokens_acc cur (c # cs) =
     (if is_space c then (if cur = [] then tokens_acc [] cs else cur # tokens_acc [] cs)
      else tokens_acc (cur @ [c]) cs)"

definition tokens :: "string \<Rightarrow> string list" where
  "tokens s = tokens_acc [] s"

text \<open>
  The class selector \<^verbatim>\<open>.name\<close>: the node is an element whose \<^verbatim>\<open>class\<close> attribute has
  \<^verbatim>\<open>name\<close> among its whitespace-separated tokens. The type selector \<^verbatim>\<open>p\<close>: the node is
  an element of that tag name.
\<close>

fun has_class :: "string \<Rightarrow> node \<Rightarrow> bool" where
  "has_class c (Element t a cs) =
     (case map_of a ''class'' of None \<Rightarrow> False | Some v \<Rightarrow> c \<in> set (tokens v))"
| "has_class c _ = False"

fun has_tag :: "string \<Rightarrow> node \<Rightarrow> bool" where
  "has_tag n (Element t a cs) = (t = n)"
| "has_tag n _ = False"

text \<open>\<^verbatim>\<open>$(selector)\<close>: every node of the document that matches, in document order.\<close>

definition select :: "document \<Rightarrow> (node \<Rightarrow> bool) \<Rightarrow> selection" where
  "select doc sel = filter (\<lambda>pn. sel (snd pn)) (all_nodes doc)"

text \<open>
  \<^verbatim>\<open>.find(selector)\<close>: the descendants of the nodes of the selection that match, each
  once, in document order. A node is a descendant of a context node when the context's
  path is a proper prefix of its path.
\<close>

definition find_sel :: "document \<Rightarrow> (node \<Rightarrow> bool) \<Rightarrow> selection \<Rightarrow> selection" where
  "find_sel doc sel ctx =
     filter (\<lambda>pn. sel (snd pn) \<and> list_ex (\<lambda>c. strict_prefix (fst c) (fst pn)) ctx)
       (all_nodes doc)"

text \<open>
  \<^verbatim>\<open>.text()\<close>: the text of every node of the selection, descendants included, joined in
  order. Comments contribute nothing.
\<close>

fun text_of :: "node \<Rightarrow> string"
  and text_of_list :: "node list \<Rightarrow> string" where
  "text_of (Text s) = s"
| "text_of (Comment s) = []"
| "text_of (Element t a cs) = text_of_list cs"
| "text_of_list [] = []"
| "text_of_list (c # cs) = text_of c @ text_of_list cs"

definition text_sel :: "selection \<Rightarrow> string" where
  "text_sel s = concat (map (\<lambda>pn. text_of (snd pn)) s)"

section \<open>parseFloat\<close>

text \<open>
  A JavaScript number is NaN, an infinity or a finite value. A finite value is kept as the
  exact rational that the parsed literal denotes; the rounding of that rational to the
  nearest double, and the sign of zero, are left out.
\<close>

datatype jsnumber = NaN | PosInfinity | NegInfinity | Finite rat

definition is_digit :: "char \<Rightarrow> bool" where
  "is_digit c = (c \<in> set ''0123456789'')"

definition digit_val :: "char \<Rightarrow> nat" where
  "digit_val c = of_char c - 48"

definition digits_val :: "string \<Rightarrow> nat" where
  "digits_val ds = foldl (\<lambda>acc c. 10 * acc + digit_val c) 0 ds"

text \<open>
  The parsed prefix: an infinity, or a decimal with its sign (True for minus), integer
  digits, fraction digits and exponent (0 when there is none).
\<close>

datatype str_decimal = StrInfinity bool | StrDecimal bool string string int

definition scan_exponent_digits :: "bool \<Rightarrow> string \<Rightarrow> int" where
  "scan_exponent_digits neg s =
     (let ds = takeWhile is_digit s
      in if ds = [] then 0
         else if neg then - int (digits_val ds) else int (digits_val ds))"

text \<open>An exponent part counts only when a digit follows the indicator and its sign.\<close>

fun scan_exponent :: "string \<Rightarrow> int" where
  "scan_exponent [] = 0"
| "scan_exponent (e # r) =
     (if e = CHR ''e'' \<or> e = CHR ''E'' then
        (case r of
           [] \<Rightarrow> 0
         | c # r' \<Rightarrow>
             if c = CHR ''+'' then scan_exponent_digits False r'
             else if c = CHR ''-'' then scan_exponent_digits True r'
             else scan_exponent_digits False r)
      else 0)"

definition scan_unsigned :: "bool \<Rightarrow> string \<Rightarrow> str_decimal option" where
  "scan_unsigned neg s =
     (if prefix ''Infinity'' s then Some (StrInfinity neg)
      else
        let ds1 = takeWhile is_digit s; r1 = dropWhile is_digit s
        in case r1 of
             [] \<Rightarrow> if ds1 = [] then None else Some (StrDecimal neg ds1 [] 0)
           | c # r2 \<Rightarrow>
               if c = CHR ''.'' then
                 (let ds2 = takeWhile is_digit r2; r3 = dropWhile is_digit r2
                  in if ds1 = [] \<and> ds2 = [] then None
                     else Some (StrDecimal neg ds1 ds2 (scan_exponent r3)))
               else if ds1 = [] then None
               else Some (StrDecimal neg ds1 [] (scan_exponent r1)))"

definition trim_start :: "string \<Rightarrow> string" where
  "trim_start s = dropWhile is_space s"

text \<open>
  The longest prefix of the input, leading white space dropped, that is a decimal
  literal; None when no prefix is one.
\<close>

definition scan_prefix :: "string \<Rightarrow> str_decimal option" where
  "scan_prefix s =
     (case trim_start s of
        [] \<Rightarrow> None
      | c # r \<Rightarrow>
          if c = CHR ''+'' then scan_unsigned False r
          else if c = CHR ''-'' then scan_unsigned True r
          else scan_unsigned False (c # r))"

text \<open>The mathematical value of a parsed literal.\<close>

definition scale10 :: "rat \<Rightarrow> int \<Rightarrow> rat" where
  "scale10 m e = (if 0 \<le> e then m * 10 ^ nat e else m / 10 ^ nat (- e))"

fun numeric_value :: "str_decimal \<Rightarrow> jsnumber" where
  "numeric_value (StrInfinity neg) = (if neg then NegInfinity else PosInfinity)"
| "numeric_value (StrDecimal neg ds1 ds2 e) =
     (let m = scale10 (of_nat (digits_val (ds1 @ ds2))) (e - int (length ds2))
      in Finite (if neg then - m else m))"

definition parseFloat :: "string \<Rightarrow> jsnumber" where
  "parseFloat s = (case scan_prefix s of None \<Rightarrow> NaN | Some lit \<Rightarrow> numeric_value lit)"

section \<open>Extraction\<close>

text \<open>The object pushed for each fact wrapper.\<close>

record price =
  orderID :: int
  figure :: jsnumber
  description :: string
  quote :: string

definition fact_wrapper :: "node \<Rightarrow> bool" where
  "fact_wrapper = has_class ''key-facts-full__fact-wrapper''"

definition figure_class :: "node \<Rightarrow> bool" where
  "figure_class = has_class ''key-facts-full__figure''"

definition description_class :: "node \<Rightarrow> bool" where
  "description_class = has_class ''key-facts-full__description''"

definition quote_class :: "node \<Rightarrow> bool" where
  "quote_class = has_class ''key-facts-full__quote''"

text \<open>
  The callback of \<^verbatim>\<open>.each\<close>, run on one wrapper (\<^verbatim>\<open>this\<close>) with the array and the counter
  as they stand: it reads the three texts, pushes the object and increments the counter.
\<close>

definition each_callback ::
  "document \<Rightarrow> path \<times> node \<Rightarrow> price list \<times> int \<Rightarrow> price list \<times> int" where
  "each_callback doc this st =
     (let prices = fst st; order = snd st;
          fig = parseFloat (text_sel (find_sel doc figure_class [this]));
          descr = text_sel (find_sel doc description_class [this]);
          quo = text_sel (find_sel doc (has_tag ''p'') (select doc quote_class))
      in (prices @ [\<lparr>orderID = order, figure = fig, description = descr, quote = quo\<rparr>],
          order + 1))"

text \<open>\<^verbatim>\<open>.each\<close> calls the callback on the nodes of the selection, in order.\<close>

fun each :: "document \<Rightarrow> selection \<Rightarrow> price list \<times> int \<Rightarrow> price list \<times> int" where
  "each doc [] st = st"
| "each doc (this # rest) st = each doc rest (each_callback doc this st)"

text \<open>The parsing phase: \<^verbatim>\<open>prices = []\<close>, \<^verbatim>\<open>orderID = 1\<close>, then the loop over the wrappers.\<close>

definition extract_prices :: "document \<Rightarrow> price list" where
  "extract_prices doc = fst (each doc (select doc fact_wrapper) ([], 1))"

section \<open>The price table\<close>

text \<open>
  The argument of \<^verbatim>\<open>createMany\<close> adds the time of \<^verbatim>\<open>new Date()\<close> to each object; the
  table row adds the key that the store assigns.
\<close>

record price_data = price +
  created_at :: nat

record price_row = price_data +
  price_id :: nat

text \<open>The table in insertion order, and the last value of the key's sequence.\<close>

record store =
  price_table :: "price_row list"
  price_id_seq :: nat

text \<open>
  The table's only uniqueness constraint is its primary key, \<^verbatim>\<open>price_pkey\<close> on \<^verbatim>\<open>id\<close>:
  two rows collide when they have the same key.
\<close>

definition collides :: "price_row \<Rightarrow> price_row \<Rightarrow> bool" where
  "collides a b = (price_id a = price_id b)"

definition with_id :: "price_data \<Rightarrow> nat \<Rightarrow> price_row" where
  "with_id d i =
     \<lparr>orderID = orderID d, figure = figure d, description = description d, quote = quote d,
      created_at = created_at d, price_id = i\<rparr>"

text \<open>
  The insert of \<^verbatim>\<open>createMany\<close> with \<^verbatim>\<open>skipDuplicates\<close>: every proposed row takes the next
  key of the sequence; a row that collides with a row of the table is skipped, any other
  is appended. The result is the store and the number of rows inserted.
\<close>

fun insert_rows :: "store \<Rightarrow> price_data list \<Rightarrow> store \<times> nat" where
  "insert_rows s [] = (s, 0)"
| "insert_rows s (d # ds) =
     (let i = Suc (price_id_seq s);
          row = with_id d i;
          s1 = s\<lparr>price_id_seq := i\<rparr>
      in if list_ex (collides row) (price_table s1) then insert_rows s1 ds
         else (let r = insert_rows (s1\<lparr>price_table := price_table s1 @ [row]\<rparr>) ds
               in (fst r, Suc (snd r))))"

section \<open>The pipeline\<close>

text \<open>
  What can be thrown inside the \<^verbatim>\<open>try\<close> block: the rejection of \<^verbatim>\<open>axios.get\<close>, an exception
  of \<^verbatim>\<open>cheerio.load\<close>, the rejection of the Prisma call.
\<close>

datatype error = FetchError | ParseError | StorageError

text \<open>The lines written by \<^verbatim>\<open>console.log\<close> and \<^verbatim>\<open>console.error\<close>, with their argument.\<close>

datatype console_line =
    LogCount string nat
  | LogRows string "price_row list"
  | LogError string error

record state =
  db :: store
  console :: "console_line list"

text \<open>
  What a run reads from outside: the outcome of \<^verbatim>\<open>axios.get(process.env.URL)\<close> (the
  rejection, or \<^verbatim>\<open>response.data\<close>), the parser, whether the store answers the Prisma call,
  and the clock (the time read by the i-th \<^verbatim>\<open>new Date()\<close> of the run).
\<close>

record env =
  axios_get :: "error + string"
  cheerio_load :: "string \<Rightarrow> error + document"
  prisma_up :: bool
  new_Date :: "nat \<Rightarrow> nat"

text \<open>\<^verbatim>\<open>prices.map(...)\<close>: the fields of each object, and the time of the call.\<close>

fun map_prices :: "(nat \<Rightarrow> nat) \<Rightarrow> nat \<Rightarrow> price list \<Rightarrow> price_data list" where
  "map_prices clock i [] = []"
| "map_prices clock i (p # ps) =
     \<lparr>orderID = orderID p, figure = figure p, description = description p, quote = quote p,
      created_at = clock i\<rparr> # map_prices clock (Suc i) ps"

text \<open>
  \<^verbatim>\<open>db.prisma.price.createMany({data, skipDuplicates: true})\<close>: one insert statement; it
  is rejected as a whole when the store does not answer.
\<close>

definition createMany :: "env \<Rightarrow> price_data list \<Rightarrow> store \<Rightarrow> error + store \<times> nat" where
  "createMany e data s = (if prisma_up e then Inr (insert_rows s data) else Inl StorageError)"

text \<open>
  The \<^verbatim>\<open>try\<close> block of \<^verbatim>\<open>fetchDataAndSaveToDB\<close>: the thrown error, or the state after the
  last statement. Nothing is written before the insert statement succeeds.
\<close>

definition try_block :: "env \<Rightarrow> state \<Rightarrow> error + state" where
  "try_block e st =
     (case axios_get e of
        Inl err \<Rightarrow> Inl err
      | Inr html \<Rightarrow>
          (case cheerio_load e html of
             Inl err \<Rightarrow> Inl err
           | Inr doc \<Rightarrow>
               (let prices = extract_prices doc
                in case createMany e (map_prices (new_Date e) 0 prices) (db st) of
                     Inl err \<Rightarrow> Inl err
                   | Inr r \<Rightarrow>
                       Inr (st\<lparr>db := fst r,
                               console := console st @
                                 [LogCount ''Prices inserted into PostgreSQL:'' (snd r)]\<rparr>))))"

text \<open>How the promise of an async function settles.\<close>

datatype promise = Resolved | Rejected error

text \<open>
  \<^verbatim>\<open>fetchDataAndSaveToDB\<close>: the \<^verbatim>\<open>try\<close> block, and the \<^verbatim>\<open>catch\<close> clause, which writes the
  error to the console and throws nothing.
\<close>

definition fetchDataAndSaveToDB :: "env \<Rightarrow> state \<Rightarrow> state \<times> promise" where
  "fetchDataAndSaveToDB e st =
     (case try_block e st of
        Inr st' \<Rightarrow> (st', Resolved)
      | Inl err \<Rightarrow>
          (st\<lparr>console := console st @ [LogError ''Error fetching data and saving to DB'' err]\<rparr>,
           Resolved))"

section \<open>The endpoints\<close>

datatype body = Send string | JsonRows "price_row list" | JsonError string

record response =
  status :: nat
  payload :: body

text \<open>\<^verbatim>\<open>GET /update\<close>: 200 when the promise of the run resolves, 500 when it is rejected.\<close>

definition get_update :: "env \<Rightarrow> state \<Rightarrow> state \<times> response" where
  "get_update e st =
     (let r = fetchDataAndSaveToDB e st
      in case snd r of
           Resolved \<Rightarrow> (fst r, \<lparr>status = 200, payload = Send ''Data updated''\<rparr>)
         | Rejected err \<Rightarrow> (fst r, \<lparr>status = 500, payload = Send ''Error updating data''\<rparr>))"

text \<open>
  \<^verbatim>\<open>findMany({take: 5, orderBy: {id: "desc"}})\<close>: the rows by descending key, the first
  five of them.
\<close>

definition findMany_take5_desc :: "env \<Rightarrow> store \<Rightarrow> error + price_row list" where
  "findMany_take5_desc e s =
     (if prisma_up e then Inr (take 5 (rev (sort_key price_id (price_table s))))
      else Inl StorageError)"

text \<open>\<^verbatim>\<open>GET /prices\<close>.\<close>

definition get_prices :: "env \<Rightarrow> state \<Rightarrow> state \<times> response" where
  "get_prices e st =
     (case findMany_take5_desc e (db st) of
        Inr prices \<Rightarrow>
          (st\<lparr>console := console st @ [LogRows ''Data fetched'' prices]\<rparr>,
           \<lparr>status = 200, payload = JsonRows prices\<rparr>)
      | Inl err \<Rightarrow>
          (st\<lparr>console := console st @ [LogError ''Error :'' err]\<rparr>,
           \<lparr>status = 500, payload = JsonError ''Error fetching data''\<rparr>))"

section \<open>Reference definitions\<close>

text \<open>
  The properties below are stated against definitions that follow the tree itself, not
  the paths: how many nodes of a tree match a selector, what lies below a node, which
  paragraphs lie inside a quote block.
\<close>

fun count_nodes :: "(node \<Rightarrow> bool) \<Rightarrow> node \<Rightarrow> nat"
  and count_nodes_list :: "(node \<Rightarrow> bool) \<Rightarrow> node list \<Rightarrow> nat" where
  "count_nodes sel (Text s) = (if sel (Text s) then 1 else 0)"
| "count_nodes sel (Comment s) = (if sel (Comment s) then 1 else 0)"
| "count_nodes sel (Element t a cs) =
     (if sel (Element t a cs) then 1 else 0) + count_nodes_list sel cs"
| "count_nodes_list sel [] = 0"
| "count_nodes_list sel (c # cs) = count_nodes sel c + count_nodes_list sel cs"

text \<open>The nodes below a node of the document, in document order.\<close>

fun descendants :: "path \<times> node \<Rightarrow> selection" where
  "descendants (p, Element t a cs) = preorder_list p 0 cs"
| "descendants (p, _) = []"

text \<open>
  The text of every \<^verbatim>\<open>p\<close> element that has an element of the quote class above it, in
  document order; the flag says whether such an element is above the node at hand.
\<close>

fun quoted_paragraphs :: "bool \<Rightarrow> node \<Rightarrow> string"
  and quoted_paragraphs_list :: "bool \<Rightarrow> node list \<Rightarrow> string" where
  "quoted_paragraphs inside (Text s) = []"
| "quoted_paragraphs inside (Comment s) = []"
| "quoted_paragraphs inside (Element t a cs) =
     (if inside \<and> t = ''p'' then text_of_list cs else []) @
     quoted_paragraphs_list (inside \<or> quote_class (Element t a cs)) cs"
| "quoted_paragraphs_list inside [] = []"
| "quoted_paragraphs_list inside (c # cs) =
     quoted_paragraphs inside c @ quoted_paragraphs_list inside cs"

text \<open>
  The texts of a wrapper, read from the nodes below it, the quote of the page, and the
  object expected for the wrapper at position j (from 0) of the document.
\<close>

definition figure_text :: "path \<times> node \<Rightarrow> string" where
  "figure_text w = text_sel (filter (\<lambda>x. figure_class (snd x)) (descendants w))"

definition description_text :: "path \<times> node \<Rightarrow> string" where
  "description_text w = text_sel (filter (\<lambda>x. description_class (snd x)) (descendants w))"

definition quote_text :: "document \<Rightarrow> string" where
  "quote_text doc = quoted_paragraphs_list False doc"

definition fact_of :: "document \<Rightarrow> nat \<Rightarrow> path \<times> node \<Rightarrow> price" where
  "fact_of doc j w =
     \<lparr>orderID = 1 + int j, figure = parseFloat (figure_text w),
      description = description_text w, quote = quote_text doc\<rparr>"

subsection \<open>The grammar of decimal literals\<close>









subsection \<open>The store's keys\<close>

text \<open>
  What the primary key and its sequence guarantee: no two rows share a key, and no key is
  beyond the sequence.
\<close>

definition store_ok :: "store \<Rightarrow> bool" where
  "store_ok s =
     (distinct (map price_id (price_table s)) \<and>
      list_all (\<lambda>r. price_id r \<le> price_id_seq s) (price_table s))"

subsection \<open>A page and a table\<close>

text \<open>A page with three fact wrappers, figures 12.5, abc and 7, and one quote.\<close>

definition fact_node :: "string \<Rightarrow> string \<Rightarrow> node" where
  "fact_node fig descr =
     Element ''div'' [(''class'', ''key-facts-full__fact-wrapper'')]
       [Element ''span'' [(''class'', ''key-facts-full__figure'')] [Text fig],
        Element ''span'' [(''class'', ''key-facts-full__description'')] [Text descr]]"

definition quote_node :: "string list \<Rightarrow> node" where
  "quote_node paragraphs =
     Element ''div'' [(''class'', ''key-facts-full__quote'')]
       (map (\<lambda>t. Element ''p'' [] [Text t]) paragraphs)"

definition page3 :: document where
  "page3 =
     [Element ''body'' []
        [fact_node ''12.5'' ''a'', fact_node ''abc'' ''b'', fact_node ''7'' ''c'',
         quote_node [''Test quote'']]]"

text \<open>
  A page with a quote and no fact wrapper; a page with two quote blocks, of two and of
  one paragraph; a page whose first figure is a percentage.
\<close>

definition page0 :: document where
  "page0 = [Element ''body'' [] [quote_node [''Test quote'']]]"

definition page_two_quotes :: document where
  "page_two_quotes =
     [Element ''body'' []
        [quote_node [''A'', ''B''], fact_node ''1'' ''x'', quote_node [''C'']]]"


text \<open>
  The outside of a run: one in which the request fails, one in which the store does not
  answer, and one that serves the page above at the times 1000, 1001, ...
\<close>

definition env_fetch_fails :: env where
  "env_fetch_fails =
     \<lparr>axios_get = Inl FetchError, cheerio_load = (\<lambda>h. Inr []), prisma_up = True,
      new_Date = (\<lambda>i. 0)\<rparr>"

definition env_store_down :: env where
  "env_store_down =
     \<lparr>axios_get = Inr ''page'', cheerio_load = (\<lambda>h. Inr page3), prisma_up = False,
      new_Date = (\<lambda>i. 0)\<rparr>"

definition env_page0 :: env where
  "env_page0 =
     \<lparr>axios_get = Inr ''page'', cheerio_load = (\<lambda>h. Inr page0), prisma_up = True,
      new_Date = (\<lambda>i. 0)\<rparr>"

definition env_page3 :: env where
  "env_page3 =
     \<lparr>axios_get = Inr ''page'', cheerio_load = (\<lambda>h. Inr page3), prisma_up = True,
      new_Date = (\<lambda>i. 1000 + i)\<rparr>"

text \<open>The empty table, and the batch that the page above gives.\<close>

definition store0 :: store where
  "store0 = \<lparr>price_table = [], price_id_seq = 0\<rparr>"

definition batch3 :: "price_data list" where
  "batch3 = map_prices (\<lambda>i. 1000 + i) 0 (extract_prices page3)"

text \<open>A table of ten rows with the keys 1 to 10.\<close>

definition row_n :: "nat \<Rightarrow> price_row" where
  "row_n i =
     \<lparr>orderID = int i, figure = Finite 1, description = ''d'', quote = ''q'',
      created_at = 0, price_id = i\<rparr>"

definition table10 :: store where
  "table10 = \<lparr>price_table = map row_n [1, 2, 3, 4, 5, 6, 7, 8, 9, 10], price_id_seq = 10\<rparr>"

section \<open>The traversal and the selections\<close>

lemma preorder_paths_aux:
  "\<forall>q m. (q, m) \<in> set (preorder p n) \<longrightarrow> prefix p q"
  "\<forall>q m. (q, m) \<in> set (preorder_list p i cs) \<longrightarrow> (\<exists>j\<ge>i. prefix (p @ [j]) q)"
proof (induction p n and p i cs rule: preorder_preorder_list.induct)
  case (3 p t a cs)
  show ?case
  proof (intro allI impI)
    fix q m assume "(q, m) \<in> set (preorder p (Element t a cs))"
    then consider "q = p" | "(q, m) \<in> set (preorder_list p 0 cs)" by auto
    then show "prefix p q"
    proof cases
      case 1 then show ?thesis by simp
    next
      case 2
      then obtain j where "prefix (p @ [j]) q" using 3 by blast
      then show ?thesis by (rule append_prefixD)
    qed
  qed
next
  case (5 p i c cs)
  show ?case
  proof (intro allI impI)
    fix q m assume "(q, m) \<in> set (preorder_list p i (c # cs))"
    then consider "(q, m) \<in> set (preorder (p @ [i]) c)" | "(q, m) \<in> set (preorder_list p (Suc i) cs)"
      by auto
    then show "\<exists>j\<ge>i. prefix (p @ [j]) q"
    proof cases
      case 1
      then show ?thesis using 5(1) by blast
    next
      case 2
      then obtain j where "Suc i \<le> j" "prefix (p @ [j]) q" using 5(2) by blast
      then show ?thesis by (meson Suc_leD)
    qed
  qed
qed simp_all

lemma preorder_prefix: "(q, m) \<in> set (preorder p n) \<Longrightarrow> prefix p q"
  using preorder_paths_aux(1) by blast

lemma preorder_list_prefix:
  "(q, m) \<in> set (preorder_list p i cs) \<Longrightarrow> \<exists>j\<ge>i. prefix (p @ [j]) q"
  using preorder_paths_aux(2) by blast

lemma preorder_prefix_fst: "x \<in> set (preorder p n) \<Longrightarrow> prefix p (fst x)"
  by (cases x) (auto dest: preorder_prefix)

lemma preorder_list_prefix_fst:
  "x \<in> set (preorder_list p i cs) \<Longrightarrow> \<exists>j\<ge>i. prefix (p @ [j]) (fst x)"
  by (cases x) (auto dest: preorder_list_prefix)

lemma count_select:
  "length (filter (\<lambda>x. sel (snd x)) (preorder p n)) = count_nodes sel n"
  "length (filter (\<lambda>x. sel (snd x)) (preorder_list p i cs)) = count_nodes_list sel cs"
  by (induction p n and p i cs rule: preorder_preorder_list.induct) simp_all

lemma branch_unique: "prefix (p @ [i]) q \<Longrightarrow> prefix (p @ [j]) q \<Longrightarrow> i = j"
  by (auto simp: prefix_def)

lemma other_branch:
  assumes "prefix (p @ [i]) a" and "prefix (p @ [j]) b" and "i \<noteq> j"
  shows "\<not> prefix a b"
proof
  assume "prefix a b"
  with assms(1) have "prefix (p @ [i]) b" by (rule prefix_order.trans)
  with assms(2) have "i = j" by (auto dest: branch_unique)
  with assms(3) show False by simp
qed

lemma descendants_filter_aux:
  "\<forall>p0 n0. (p0, n0) \<in> set (preorder p n) \<longrightarrow>
     filter (\<lambda>x. strict_prefix p0 (fst x)) (preorder p n) = descendants (p0, n0)"
  "\<forall>p0 n0. (p0, n0) \<in> set (preorder_list p i cs) \<longrightarrow>
     filter (\<lambda>x. strict_prefix p0 (fst x)) (preorder_list p i cs) = descendants (p0, n0)"
proof (induction p n and p i cs rule: preorder_preorder_list.induct)
  case (3 p t a cs)
  show ?case
  proof (intro allI impI)
    fix p0 n0 assume "(p0, n0) \<in> set (preorder p (Element t a cs))"
    then consider "(p0, n0) = (p, Element t a cs)" | "(p0, n0) \<in> set (preorder_list p 0 cs)"
      by auto
    then show "filter (\<lambda>x. strict_prefix p0 (fst x)) (preorder p (Element t a cs)) =
        descendants (p0, n0)"
    proof cases
      case 1
      have "\<forall>x\<in>set (preorder_list p 0 cs). strict_prefix p (fst x)"
      proof
        fix x assume "x \<in> set (preorder_list p 0 cs)"
        then obtain j where "prefix (p @ [j]) (fst x)"
          using preorder_list_prefix [of "fst x" "snd x" p 0 cs] by auto
        then show "strict_prefix p (fst x)" by (auto simp: prefix_def strict_prefix_def)
      qed
      then have "filter (\<lambda>x. strict_prefix p (fst x)) (preorder_list p 0 cs) = preorder_list p 0 cs"
        by (simp add: filter_id_conv)
      with 1 show ?thesis by simp
    next
      case 2
      then obtain j where "prefix (p @ [j]) p0" using preorder_list_prefix by blast
      then have "\<not> strict_prefix p0 p" by (auto simp: prefix_def strict_prefix_def)
      with 2 3 show ?thesis by simp
    qed
  qed
next
  case (5 p i c cs)
  show ?case
  proof (intro allI impI)
    fix p0 n0 assume "(p0, n0) \<in> set (preorder_list p i (c # cs))"
    then consider "(p0, n0) \<in> set (preorder (p @ [i]) c)"
      | "(p0, n0) \<in> set (preorder_list p (Suc i) cs)" by auto
    then show "filter (\<lambda>x. strict_prefix p0 (fst x)) (preorder_list p i (c # cs)) =
        descendants (p0, n0)"
    proof cases
      case 1
      then have a: "prefix (p @ [i]) p0" by (rule preorder_prefix)
      have "\<forall>x\<in>set (preorder_list p (Suc i) cs). \<not> strict_prefix p0 (fst x)"
      proof
        fix x assume "x \<in> set (preorder_list p (Suc i) cs)"
        then obtain j where "Suc i \<le> j" "prefix (p @ [j]) (fst x)"
          using preorder_list_prefix [of "fst x" "snd x" p "Suc i" cs] by auto
        then show "\<not> strict_prefix p0 (fst x)"
          using other_branch [OF a, of j "fst x"] by (auto simp: strict_prefix_def)
      qed
      then have "filter (\<lambda>x. strict_prefix p0 (fst x)) (preorder_list p (Suc i) cs) = []"
        by (simp add: filter_empty_conv)
      with 1 5(1) show ?thesis by simp
    next
      case 2
      then obtain j where j: "Suc i \<le> j" "prefix (p @ [j]) p0"
        using preorder_list_prefix by blast
      have "\<forall>x\<in>set (preorder (p @ [i]) c). \<not> strict_prefix p0 (fst x)"
      proof
        fix x assume "x \<in> set (preorder (p @ [i]) c)"
        then have "prefix (p @ [i]) (fst x)"
          using preorder_prefix [of "fst x" "snd x" "p @ [i]" c] by simp
        then show "\<not> strict_prefix p0 (fst x)"
          using other_branch [OF j(2), of i "fst x"] j(1) by (auto simp: strict_prefix_def)
      qed
      then have "filter (\<lambda>x. strict_prefix p0 (fst x)) (preorder (p @ [i]) c) = []"
        by (simp add: filter_empty_conv)
      with 2 5(2) show ?thesis by simp
    qed
  qed
qed simp_all

lemma find_sel_single:
  assumes "w \<in> set (all_nodes doc)"
  shows "find_sel doc sel [w] = filter (\<lambda>x. sel (snd x)) (descendants w)"
proof -
  obtain p0 n0 where w: "w = (p0, n0)" by (cases w)
  have "filter (\<lambda>x. strict_prefix p0 (fst x)) (all_nodes doc) = descendants (p0, n0)"
    using assms descendants_filter_aux(2) [of "[]" 0 doc] unfolding w all_nodes_def by blast
  then have "filter (\<lambda>x. strict_prefix (fst w) (fst x)) (all_nodes doc) = descendants w"
    by (simp add: w)
  then have "filter (\<lambda>x. sel (snd x)) (filter (\<lambda>x. strict_prefix (fst w) (fst x)) (all_nodes doc))
      = filter (\<lambda>x. sel (snd x)) (descendants w)" by simp
  then show ?thesis by (simp add: find_sel_def conj_commute)
qed

lemma quoted_aux:
  "\<forall>b. (\<forall>x\<in>set (preorder p n). A (fst x) =
          (b \<or> (\<exists>c\<in>set (preorder p n). quote_class (snd c) \<and> strict_prefix (fst c) (fst x))))
     \<longrightarrow> concat (map (\<lambda>x. text_of (snd x))
           (filter (\<lambda>x. has_tag ''p'' (snd x) \<and> A (fst x)) (preorder p n))) =
         quoted_paragraphs b n"
  "\<forall>b. (\<forall>x\<in>set (preorder_list p i cs). A (fst x) =
          (b \<or> (\<exists>c\<in>set (preorder_list p i cs).
                  quote_class (snd c) \<and> strict_prefix (fst c) (fst x))))
     \<longrightarrow> concat (map (\<lambda>x. text_of (snd x))
           (filter (\<lambda>x. has_tag ''p'' (snd x) \<and> A (fst x)) (preorder_list p i cs))) =
         quoted_paragraphs_list b cs"
proof (induction p n and p i cs rule: preorder_preorder_list.induct)
  case (3 p t a cs)
  show ?case
  proof (intro allI impI)
    fix b
    let ?n = "Element t a cs"
    assume H: "\<forall>x\<in>set (preorder p ?n). A (fst x) =
      (b \<or> (\<exists>c\<in>set (preorder p ?n). quote_class (snd c) \<and> strict_prefix (fst c) (fst x)))"
    have below: "strict_prefix p (fst x)" if x: "x \<in> set (preorder_list p 0 cs)" for x
    proof -
      obtain j where "prefix (p @ [j]) (fst x)"
        using preorder_list_prefix_fst [OF x] by blast
      then show ?thesis by (auto simp: prefix_def strict_prefix_def)
    qed
    have "\<not> strict_prefix (fst c) p" if "c \<in> set (preorder p ?n)" for c
      using preorder_prefix_fst [OF that] by (auto simp: strict_prefix_def)
    then have root: "A p = b" using H by auto
    have "\<forall>x\<in>set (preorder_list p 0 cs). A (fst x) =
      ((b \<or> quote_class ?n) \<or> (\<exists>c\<in>set (preorder_list p 0 cs).
          quote_class (snd c) \<and> strict_prefix (fst c) (fst x)))"
    proof
      fix x assume x: "x \<in> set (preorder_list p 0 cs)"
      then have "A (fst x) = (b \<or> (\<exists>c\<in>set (preorder p ?n).
          quote_class (snd c) \<and> strict_prefix (fst c) (fst x)))" using H by simp
      then show "A (fst x) = ((b \<or> quote_class ?n) \<or> (\<exists>c\<in>set (preorder_list p 0 cs).
          quote_class (snd c) \<and> strict_prefix (fst c) (fst x)))"
        using below [OF x] by auto
    qed
    then have "concat (map (\<lambda>x. text_of (snd x))
        (filter (\<lambda>x. has_tag ''p'' (snd x) \<and> A (fst x)) (preorder_list p 0 cs))) =
        quoted_paragraphs_list (b \<or> quote_class ?n) cs"
      using 3 by blast
    then show "concat (map (\<lambda>x. text_of (snd x))
        (filter (\<lambda>x. has_tag ''p'' (snd x) \<and> A (fst x)) (preorder p ?n))) =
        quoted_paragraphs b ?n"
      using root by auto
  qed
next
  case (5 p i c cs)
  show ?case
  proof (intro allI impI)
    fix b
    assume H: "\<forall>x\<in>set (preorder_list p i (c # cs)). A (fst x) =
      (b \<or> (\<exists>c'\<in>set (preorder_list p i (c # cs)).
          quote_class (snd c') \<and> strict_prefix (fst c') (fst x)))"
    have first: "prefix (p @ [i]) (fst x)" if "x \<in> set (preorder (p @ [i]) c)" for x
      using that by (rule preorder_prefix_fst)
    have rest: "\<exists>j. j \<noteq> i \<and> prefix (p @ [j]) (fst x)"
      if x: "x \<in> set (preorder_list p (Suc i) cs)" for x
    proof -
      obtain j where "Suc i \<le> j" "prefix (p @ [j]) (fst x)"
        using preorder_list_prefix_fst [OF x] by blast
      then show ?thesis by (intro exI [of _ j]) simp
    qed
    have apart: "\<not> strict_prefix (fst y) (fst x) \<and> \<not> strict_prefix (fst x) (fst y)"
      if x: "x \<in> set (preorder (p @ [i]) c)" and y: "y \<in> set (preorder_list p (Suc i) cs)" for x y
    proof -
      obtain j where j: "j \<noteq> i" "prefix (p @ [j]) (fst y)" using rest [OF y] by blast
      show ?thesis
        using other_branch [OF first [OF x] j(2)] other_branch [OF j(2) first [OF x]] j(1)
        by (auto simp: strict_prefix_def)
    qed
    have H1: "\<forall>x\<in>set (preorder (p @ [i]) c). A (fst x) =
      (b \<or> (\<exists>c'\<in>set (preorder (p @ [i]) c).
          quote_class (snd c') \<and> strict_prefix (fst c') (fst x)))"
    proof
      fix x assume x: "x \<in> set (preorder (p @ [i]) c)"
      then have "A (fst x) = (b \<or> (\<exists>c'\<in>set (preorder_list p i (c # cs)).
          quote_class (snd c') \<and> strict_prefix (fst c') (fst x)))" using H by simp
      then show "A (fst x) = (b \<or> (\<exists>c'\<in>set (preorder (p @ [i]) c).
          quote_class (snd c') \<and> strict_prefix (fst c') (fst x)))"
        using apart [OF x] by auto
    qed
    have H2: "\<forall>x\<in>set (preorder_list p (Suc i) cs). A (fst x) =
      (b \<or> (\<exists>c'\<in>set (preorder_list p (Suc i) cs).
          quote_class (snd c') \<and> strict_prefix (fst c') (fst x)))"
    proof
      fix x assume x: "x \<in> set (preorder_list p (Suc i) cs)"
      then have "A (fst x) = (b \<or> (\<exists>c'\<in>set (preorder_list p i (c # cs)).
          quote_class (snd c') \<and> strict_prefix (fst c') (fst x)))" using H by simp
      then show "A (fst x) = (b \<or> (\<exists>c'\<in>set (preorder_list p (Suc i) cs).
          quote_class (snd c') \<and> strict_prefix (fst c') (fst x)))"
        using apart [OF _ x] by auto
    qed
    have e1: "concat (map (\<lambda>x. text_of (snd x))
        (filter (\<lambda>x. has_tag ''p'' (snd x) \<and> A (fst x)) (preorder (p @ [i]) c))) =
        quoted_paragraphs b c"
      using 5(1) H1 by blast
    have e2: "concat (map (\<lambda>x. text_of (snd x))
        (filter (\<lambda>x. has_tag ''p'' (snd x) \<and> A (fst x)) (preorder_list p (Suc i) cs))) =
        quoted_paragraphs_list b cs"
      using 5(2) H2 by blast
    show "concat (map (\<lambda>x. text_of (snd x))
        (filter (\<lambda>x. has_tag ''p'' (snd x) \<and> A (fst x)) (preorder_list p i (c # cs)))) =
        quoted_paragraphs_list b (c # cs)"
      using e1 e2 by simp
  qed
qed simp_all

lemma quote_text_eq:
  "text_sel (find_sel doc (has_tag ''p'') (select doc quote_class)) =
     quoted_paragraphs_list False doc"
proof -
  let ?A = "\<lambda>q. list_ex (\<lambda>c. strict_prefix (fst c) q) (select doc quote_class)"
  have "\<forall>x\<in>set (preorder_list [] 0 doc). ?A (fst x) =
      (False \<or> (\<exists>c\<in>set (preorder_list [] 0 doc).
          quote_class (snd c) \<and> strict_prefix (fst c) (fst x)))"
    by (fastforce simp: list_ex_iff select_def all_nodes_def)
  then have "concat (map (\<lambda>x. text_of (snd x))
      (filter (\<lambda>x. has_tag ''p'' (snd x) \<and> ?A (fst x)) (preorder_list [] 0 doc))) =
      quoted_paragraphs_list False doc"
    using quoted_aux(2) [of "[]" 0 doc ?A] by blast
  then show ?thesis by (simp add: text_sel_def find_sel_def all_nodes_def)
qed

lemma each_callback_eq:
  assumes "w \<in> set (all_nodes doc)"
  shows "each_callback doc w (ps, int k + 1) = (ps @ [fact_of doc k w], int (Suc k) + 1)"
  using assms
  by (simp add: each_callback_def Let_def fact_of_def figure_text_def description_text_def
      quote_text_def find_sel_single quote_text_eq)

lemma each_eq:
  "set ws \<subseteq> set (all_nodes doc) \<Longrightarrow>
   each doc ws (ps, int k + 1) =
     (ps @ map (\<lambda>jw. fact_of doc (fst jw) (snd jw)) (enumerate k ws), int (k + length ws) + 1)"
proof (induction ws arbitrary: ps k)
  case Nil
  show ?case by simp
next
  case (Cons w ws)
  have w: "w \<in> set (all_nodes doc)" and ws: "set ws \<subseteq> set (all_nodes doc)"
    using Cons.prems by simp_all
  have "each doc (w # ws) (ps, int k + 1) = each doc ws (ps @ [fact_of doc k w], int (Suc k) + 1)"
    using each_callback_eq [OF w] by simp
  also have "\<dots> = ((ps @ [fact_of doc k w]) @
      map (\<lambda>jw. fact_of doc (fst jw) (snd jw)) (enumerate (Suc k) ws),
      int (Suc k + length ws) + 1)"
    by (rule Cons.IH [OF ws])
  finally show ?case by simp
qed

lemma extract_prices_eq:
  "extract_prices doc =
     map (\<lambda>jw. fact_of doc (fst jw) (snd jw)) (enumerate 0 (select doc fact_wrapper))"
proof -
  have "set (select doc fact_wrapper) \<subseteq> set (all_nodes doc)"
    by (auto simp: select_def)
  from each_eq [OF this, of "[]" 0] show ?thesis
    by (simp add: extract_prices_def)
qed

lemma length_select: "length (select doc sel) = count_nodes_list sel doc"
  by (simp add: select_def all_nodes_def count_select)

lemma length_extract_prices: "length (extract_prices doc) = count_nodes_list fact_wrapper doc"
  by (simp add: extract_prices_eq length_select)


section \<open>The parser and the grammar\<close>

































section \<open>The table and its keys\<close>

lemma insert_rows_no_skip:
  "store_ok s \<Longrightarrow>
   insert_rows s ds =
     (s\<lparr>price_id_seq := price_id_seq s + length ds,
        price_table := price_table s @
          map (\<lambda>jd. with_id (snd jd) (fst jd)) (enumerate (Suc (price_id_seq s)) ds)\<rparr>,
      length ds)"
proof (induction ds arbitrary: s)
  case Nil
  show ?case by simp
next
  case (Cons d ds)
  let ?i = "Suc (price_id_seq s)"
  let ?s2 = "s\<lparr>price_id_seq := ?i, price_table := price_table s @ [with_id d ?i]\<rparr>"
  have fresh: "\<not> list_ex (collides (with_id d ?i)) (price_table s)"
    using Cons.prems
    by (auto simp: store_ok_def list_ex_iff list_all_iff collides_def with_id_def)
  have ok: "store_ok ?s2"
    using Cons.prems by (auto simp: store_ok_def list_all_iff with_id_def)
  have "insert_rows s (d # ds) = (fst (insert_rows ?s2 ds), Suc (snd (insert_rows ?s2 ds)))"
    using fresh by (simp add: Let_def)
  also have "\<dots> = (s\<lparr>price_id_seq := price_id_seq s + length (d # ds),
        price_table := price_table s @
          map (\<lambda>jd. with_id (snd jd) (fst jd)) (enumerate (Suc (price_id_seq s)) (d # ds))\<rparr>,
      length (d # ds))"
    unfolding Cons.IH [OF ok] by simp
  finally show ?case .
qed

lemma insert_rows_count: "store_ok s \<Longrightarrow> snd (insert_rows s ds) = length ds"
  by (simp add: insert_rows_no_skip)

lemma insert_rows_length:
  "store_ok s \<Longrightarrow> length (price_table (fst (insert_rows s ds))) = length (price_table s) + length ds"
  by (simp add: insert_rows_no_skip)

lemma insert_rows_ok: "store_ok s \<Longrightarrow> store_ok (fst (insert_rows s ds))"
proof (induction ds arbitrary: s)
  case Nil
  then show ?case by simp
next
  case (Cons d ds)
  let ?i = "Suc (price_id_seq s)"
  let ?s2 = "s\<lparr>price_id_seq := ?i, price_table := price_table s @ [with_id d ?i]\<rparr>"
  have fresh: "\<not> list_ex (collides (with_id d ?i)) (price_table s)"
    using Cons.prems
    by (auto simp: store_ok_def list_ex_iff list_all_iff collides_def with_id_def)
  have ok: "store_ok ?s2"
    using Cons.prems by (auto simp: store_ok_def list_all_iff with_id_def)
  have "fst (insert_rows s (d # ds)) = fst (insert_rows ?s2 ds)"
    using fresh by (simp add: Let_def)
  then show ?case using Cons.IH [OF ok] by simp
qed

lemma take_desc:
  assumes "distinct (map price_id T)"
  shows "sorted_wrt (\<lambda>a b. price_id b < price_id a) (take n (rev (sort_key price_id T)))"
proof -
  have "sorted (map price_id (sort_key price_id T))" by (rule sorted_sort_key)
  moreover have "distinct (map price_id (sort_key price_id T))"
    using assms by (simp add: distinct_map)
  ultimately have "sorted_wrt (<) (map price_id (sort_key price_id T))"
    by (simp add: strict_sorted_iff)
  then have "sorted_wrt (\<lambda>a b. price_id a < price_id b) (sort_key price_id T)"
    by (simp add: sorted_wrt_map)
  then have "sorted_wrt (\<lambda>a b. price_id b < price_id a) (rev (sort_key price_id T))"
    by (simp add: sorted_wrt_rev)
  then show ?thesis by (rule sorted_wrt_take)
qed

lemma left_out_smaller:
  assumes "distinct (map price_id T)" and "r \<in> set T"
    and "r \<notin> set (take n (rev (sort_key price_id T)))"
    and "x \<in> set (take n (rev (sort_key price_id T)))"
  shows "price_id r < price_id x"
proof -
  let ?L = "rev (sort_key price_id T)"
  have L: "sorted_wrt (\<lambda>a b. price_id b < price_id a) ?L"
    using take_desc [OF assms(1), of "length ?L"] by simp
  have "r \<in> set ?L" using assms(2) by simp
  then have "r \<in> set (take n ?L) \<union> set (drop n ?L)"
    by (metis append_take_drop_id set_append)
  then have r: "r \<in> set (drop n ?L)" using assms(3) by simp
  have "sorted_wrt (\<lambda>a b. price_id b < price_id a) (take n ?L @ drop n ?L)"
    using L by simp
  then have "\<forall>a\<in>set (take n ?L). \<forall>b\<in>set (drop n ?L). price_id b < price_id a"
    unfolding sorted_wrt_append by blast
  then show ?thesis using r assms(4) by blast
qed

lemma insert_rows_prefix: "prefix (price_table s) (price_table (fst (insert_rows s ds)))"
proof (induction ds arbitrary: s)
  case Nil
  show ?case by simp
next
  case (Cons d ds)
  let ?i = "Suc (price_id_seq s)"
  let ?s1 = "s\<lparr>price_id_seq := ?i\<rparr>"
  let ?s2 = "?s1\<lparr>price_table := price_table ?s1 @ [with_id d ?i]\<rparr>"
  have a: "prefix (price_table s) (price_table (fst (insert_rows ?s1 ds)))"
    using Cons.IH [of ?s1] by simp
  have "prefix (price_table ?s2) (price_table (fst (insert_rows ?s2 ds)))"
    by (rule Cons.IH)
  then have b: "prefix (price_table s) (price_table (fst (insert_rows ?s2 ds)))"
    by (simp add: append_prefixD)
  show ?case using a b by (simp add: Let_def)
qed

lemma try_block_prefix:
  "try_block e st = Inr st' \<Longrightarrow> prefix (price_table (db st)) (price_table (db st'))"
  by (auto simp: try_block_def createMany_def Let_def split: sum.splits if_splits)
    (metis insert_rows_prefix fst_conv)

lemma try_block_fetch_error: "axios_get e = Inl err \<Longrightarrow> try_block e st = Inl err"
  by (simp add: try_block_def)

lemma store0_ok: "store_ok store0"
  by (simp add: store_ok_def store0_def)

lemma page3_count: "count_nodes_list fact_wrapper page3 = 3"
  by code_simp

lemma page3_extract:
  "extract_prices page3 =
     [\<lparr>orderID = 1, figure = Finite (25 / 2), description = ''a'', quote = ''Test quote''\<rparr>,
      \<lparr>orderID = 2, figure = NaN, description = ''b'', quote = ''Test quote''\<rparr>,
      \<lparr>orderID = 3, figure = Finite 7, description = ''c'', quote = ''Test quote''\<rparr>]"
  by code_simp

section \<open>The extracted list\<close>

lemma map_snd_enum: "map (\<lambda>x. f (snd x)) (enumerate n xs) = map f xs"
proof -
  have "map (\<lambda>x. f (snd x)) (enumerate n xs) = map f (map snd (enumerate n xs))"
    by (simp only: map_map comp_def)
  then show ?thesis by (simp only: map_snd_enumerate)
qed

lemma map_fst_enum: "map (\<lambda>x. f (fst x)) (enumerate n xs) = map f [n..<n + length xs]"
proof -
  have "map (\<lambda>x. f (fst x)) (enumerate n xs) = map f (map fst (enumerate n xs))"
    by (simp only: map_map comp_def)
  then show ?thesis by (simp only: map_fst_enumerate)
qed

lemma map_orderID_extract:
  "map orderID (extract_prices doc) = map int [1..<Suc (count_nodes_list fact_wrapper doc)]"
proof -
  let ?ws = "select doc fact_wrapper"
  have "map orderID (extract_prices doc) = map (\<lambda>x. int (Suc (fst x))) (enumerate 0 ?ws)"
    by (simp add: extract_prices_eq fact_of_def comp_def)
  also have "\<dots> = map (\<lambda>j. int (Suc j)) [0..<0 + length ?ws]"
    by (rule map_fst_enum)
  also have "\<dots> = map int (map Suc [0..<length ?ws])"
    by (simp add: comp_def)
  also have "\<dots> = map int [1..<Suc (length ?ws)]"
    by (simp only: map_Suc_upt One_nat_def)
  finally show ?thesis by (simp add: length_select)
qed

lemma map_quote_extract:
  "map quote (extract_prices doc) = replicate (count_nodes_list fact_wrapper doc) (quote_text doc)"
  by (simp add: extract_prices_eq fact_of_def comp_def map_replicate_const length_select)

lemma map_description_extract:
  "map description (extract_prices doc) = map description_text (select doc fact_wrapper)"
  by (simp add: extract_prices_eq fact_of_def comp_def map_snd_enum)

lemma map_figure_extract:
  "map figure (extract_prices doc) =
     map (\<lambda>w. parseFloat (figure_text w)) (select doc fact_wrapper)"
  using map_snd_enum [of "\<lambda>w. parseFloat (figure_text w)" 0 "select doc fact_wrapper"]
  by (simp add: extract_prices_eq fact_of_def comp_def)

lemma page3_quote_text: "quote_text page3 = ''Test quote''"
  by code_simp

text \<open>
  C1. Extraction gives one object per fact wrapper of the page: as many objects as the
  page has wrappers, with the \<^verbatim>\<open>orderID\<close>s 1, 2, ... up to that number, all with the same
  quote, and the i-th object holds the description and the figure of the i-th wrapper in
  document order.
\<close>

theorem extract_prices_sequence:
  "length (extract_prices doc) = count_nodes_list fact_wrapper doc \<and>
   map orderID (extract_prices doc) = map int [1..<Suc (count_nodes_list fact_wrapper doc)] \<and>
   map quote (extract_prices doc) =
     replicate (count_nodes_list fact_wrapper doc) (quote_text doc) \<and>
   map description (extract_prices doc) = map description_text (select doc fact_wrapper) \<and>
   map figure (extract_prices doc) =
     map (\<lambda>w. parseFloat (figure_text w)) (select doc fact_wrapper)"
  by (simp only: length_extract_prices map_orderID_extract map_quote_extract
      map_description_extract map_figure_extract simp_thms)

theorem extract_prices_sequence_witness:
  "length (extract_prices page3) = 3 \<and>
   map orderID (extract_prices page3) = [1, 2, 3] \<and>
   map quote (extract_prices page3) = [''Test quote'', ''Test quote'', ''Test quote'']"
  using extract_prices_sequence [of page3]
  by (simp add: page3_count page3_quote_text upt_rec numeral_3_eq_3)

lemma insert_rows_Nil_store: "insert_rows s [] = (s, 0)"
  by simp

text \<open>
  C7. On a page with no fact wrapper, extraction gives the empty list; it is no error:
  a run on such a page reaches the insert with no row and ends with the line that
  counts 0 rows inserted.
\<close>

theorem no_wrapper_no_prices:
  assumes "count_nodes_list fact_wrapper doc = 0"
  shows "extract_prices doc = [] \<and>
         (axios_get e = Inr html \<and> cheerio_load e html = Inr doc \<and> prisma_up e \<longrightarrow>
            try_block e st =
              Inr (st\<lparr>console := console st @
                     [LogCount ''Prices inserted into PostgreSQL:'' 0]\<rparr>))"
proof -
  have "length (extract_prices doc) = 0"
    using assms by (simp only: length_extract_prices)
  then have nil: "extract_prices doc = []" by simp
  then show ?thesis
    by (simp add: try_block_def createMany_def)
qed

theorem no_wrapper_no_prices_witness:
  "count_nodes_list fact_wrapper page0 = 0 \<and> extract_prices page0 = [] \<and>
   try_block env_page0 \<lparr>db = table10, console = []\<rparr> =
     Inr \<lparr>db = table10, console = [LogCount ''Prices inserted into PostgreSQL:'' 0]\<rparr>"
proof -
  have h: "count_nodes_list fact_wrapper page0 = 0" by code_simp
  have e: "axios_get env_page0 = Inr ''page'' \<and> cheerio_load env_page0 ''page'' = Inr page0 \<and>
      prisma_up env_page0"
    by (simp add: env_page0_def)
  show ?thesis
    using h e no_wrapper_no_prices [OF h, of env_page0 "''page''" "\<lparr>db = table10, console = []\<rparr>"]
    by simp
qed

text \<open>
  C10. The quote of every extracted object is the text of all \<^verbatim>\<open>p\<close> elements that lie
  inside an element of the quote class, anywhere in the page, joined in document order:
  with several quote blocks or several paragraphs, all of them are in the quote of every
  object.
\<close>

theorem quote_is_all_quoted_paragraphs:
  "r \<in> set (extract_prices doc) \<Longrightarrow> quote r = quoted_paragraphs_list False doc"
proof -
  assume "r \<in> set (extract_prices doc)"
  then have "quote r \<in> set (map quote (extract_prices doc))" by simp
  then have "quote r \<in> set (replicate (count_nodes_list fact_wrapper doc) (quote_text doc))"
    by (simp only: map_quote_extract)
  then show ?thesis by (simp add: quote_text_def)
qed

theorem quote_is_all_quoted_paragraphs_witness:
  "extract_prices page_two_quotes =
     [\<lparr>orderID = 1, figure = Finite 1, description = ''x'', quote = ''ABC''\<rparr>] \<and>
   quoted_paragraphs_list False page_two_quotes = ''ABC''"
proof -
  have x: "extract_prices page_two_quotes =
     [\<lparr>orderID = 1, figure = Finite 1, description = ''x'',
       quote = quote (hd (extract_prices page_two_quotes))\<rparr>]"
    by code_simp
  then have "hd (extract_prices page_two_quotes) \<in> set (extract_prices page_two_quotes)"
    by (metis list.sel(1) list.set_intros(1))
  from quote_is_all_quoted_paragraphs [OF this]
  have q: "quote (hd (extract_prices page_two_quotes)) = quoted_paragraphs_list False page_two_quotes" .
  have "quoted_paragraphs_list False page_two_quotes = ''ABC''" by code_simp
  with x q show ?thesis by simp
qed













lemma try_block_db_only:
  assumes "db st1 = db st2"
  shows "(case try_block e st1 of Inl err \<Rightarrow> Inl err | Inr s \<Rightarrow> Inr (db s)) =
         (case try_block e st2 of Inl err \<Rightarrow> Inl err | Inr s \<Rightarrow> Inr (db s))"
  using assms by (simp add: try_block_def Let_def split: sum.splits)

lemma run_db_only:
  assumes "db st1 = db st2"
  shows "db (fst (fetchDataAndSaveToDB e st1)) = db (fst (fetchDataAndSaveToDB e st2))"
  using try_block_db_only [OF assms, of e] assms
  by (simp add: fetchDataAndSaveToDB_def split: sum.splits)

section \<open>The runs and the endpoints\<close>

text \<open>
  C8. A run only appends to the price table: the rows that were there are still there,
  unchanged and in place, after \<^verbatim>\<open>fetchDataAndSaveToDB\<close>, whether it is started by the
  schedule or by \<^verbatim>\<open>GET /update\<close>, and whatever happens in it.
\<close>

theorem run_append_only:
  "prefix (price_table (db st)) (price_table (db (fst (fetchDataAndSaveToDB e st)))) \<and>
   prefix (price_table (db st)) (price_table (db (fst (get_update e st))))"
proof -
  have a: "prefix (price_table (db st)) (price_table (db (fst (fetchDataAndSaveToDB e st))))"
    by (auto simp: fetchDataAndSaveToDB_def try_block_prefix split: sum.splits)
  have "fst (get_update e st) = fst (fetchDataAndSaveToDB e st)"
    by (simp add: get_update_def Let_def split: promise.splits)
  with a show ?thesis by simp
qed

theorem run_append_only_witness:
  "prefix (price_table table10)
     (price_table (db (fst (fetchDataAndSaveToDB env_page3 \<lparr>db = table10, console = []\<rparr>)))) \<and>
   length (price_table (db (fst (fetchDataAndSaveToDB env_page3 \<lparr>db = table10, console = []\<rparr>))))
     = 13"
proof -
  have "length (price_table (db (fst (fetchDataAndSaveToDB env_page3 \<lparr>db = table10, console = []\<rparr>))))
     = 13"
    by code_simp
  then show ?thesis
    using run_append_only [of "\<lparr>db = table10, console = []\<rparr>" env_page3] by simp
qed

text \<open>
  C9. \<^verbatim>\<open>fetchDataAndSaveToDB\<close> never rejects: whatever the request, the parser and the
  store do, its promise resolves; an error thrown in the \<^verbatim>\<open>try\<close> block is written to the
  console and the table is left as it was.
\<close>

theorem run_never_rejects:
  "snd (fetchDataAndSaveToDB e st) = Resolved \<and>
   (\<forall>err. try_block e st = Inl err \<longrightarrow>
      fst (fetchDataAndSaveToDB e st) =
        st\<lparr>console := console st @ [LogError ''Error fetching data and saving to DB'' err]\<rparr>)"
  by (simp add: fetchDataAndSaveToDB_def split: sum.splits)

theorem run_never_rejects_witness:
  "try_block env_store_down \<lparr>db = store0, console = []\<rparr> = Inl StorageError \<and>
   fetchDataAndSaveToDB env_store_down \<lparr>db = store0, console = []\<rparr> =
     (\<lparr>db = store0,
       console = [LogError ''Error fetching data and saving to DB'' StorageError]\<rparr>,
      Resolved)"
proof -
  have t: "try_block env_store_down \<lparr>db = store0, console = []\<rparr> = Inl StorageError"
    by (simp add: try_block_def env_store_down_def createMany_def)
  show ?thesis
    using t run_never_rejects [of env_store_down "\<lparr>db = store0, console = []\<rparr>"]
    by (simp add: prod_eq_iff)
qed

text \<open>
  C4. When the request fails, the run inserts no row (the store is as before), writes the
  failure to the console, and its promise resolves: nothing is thrown into the schedule
  or the process. The run that follows finds the store as if the failed run had not
  been.
\<close>

theorem fetch_error_inserts_nothing:
  assumes "axios_get e = Inl err"
  shows "db (fst (fetchDataAndSaveToDB e st)) = db st \<and>
         console (fst (fetchDataAndSaveToDB e st)) =
           console st @ [LogError ''Error fetching data and saving to DB'' err] \<and>
         snd (fetchDataAndSaveToDB e st) = Resolved \<and>
         (\<forall>e'. db (fst (fetchDataAndSaveToDB e' (fst (fetchDataAndSaveToDB e st)))) =
                db (fst (fetchDataAndSaveToDB e' st)))"
proof -
  have a: "db (fst (fetchDataAndSaveToDB e st)) = db st"
    using assms by (simp add: fetchDataAndSaveToDB_def try_block_fetch_error)
  have b: "console (fst (fetchDataAndSaveToDB e st)) =
      console st @ [LogError ''Error fetching data and saving to DB'' err]"
    using assms by (simp add: fetchDataAndSaveToDB_def try_block_fetch_error)
  have c: "snd (fetchDataAndSaveToDB e st) = Resolved"
    using assms by (simp add: fetchDataAndSaveToDB_def try_block_fetch_error)
  have "db (fst (fetchDataAndSaveToDB e' (fst (fetchDataAndSaveToDB e st)))) =
      db (fst (fetchDataAndSaveToDB e' st))" for e'
    by (rule run_db_only) (rule a)
  with a b c show ?thesis by blast
qed

theorem fetch_error_inserts_nothing_witness:
  "axios_get env_fetch_fails = Inl FetchError \<and>
   db (fst (fetchDataAndSaveToDB env_fetch_fails \<lparr>db = table10, console = []\<rparr>)) = table10 \<and>
   console (fst (fetchDataAndSaveToDB env_fetch_fails \<lparr>db = table10, console = []\<rparr>)) =
     [LogError ''Error fetching data and saving to DB'' FetchError] \<and>
   snd (fetchDataAndSaveToDB env_fetch_fails \<lparr>db = table10, console = []\<rparr>) = Resolved"
proof -
  have h: "axios_get env_fetch_fails = Inl FetchError" by (simp add: env_fetch_fails_def)
  show ?thesis
    using h fetch_error_inserts_nothing [OF h, of "\<lparr>db = table10, console = []\<rparr>"] by simp
qed

text \<open>
  C3. \<^verbatim>\<open>GET /update\<close> answers 200 in every run, also in one whose request fails: the run
  has caught the error, so the branch that would answer 500 is never taken.
\<close>

theorem get_update_always_200:
  "snd (get_update e st) = \<lparr>status = 200, payload = Send ''Data updated''\<rparr> \<and>
   snd (get_update env_fetch_fails st) = \<lparr>status = 200, payload = Send ''Data updated''\<rparr>"
  by (simp add: get_update_def Let_def fetchDataAndSaveToDB_def split: sum.splits)

text \<open>
  C2. The same batch inserted twice is in the table twice: every proposed row takes a
  new key, the key is the table's only uniqueness constraint, so no row is ever skipped.
  Here the three facts of the page go into the empty table, and then again.
\<close>

theorem createMany_twice_doubles:
  "createMany env_page3 batch3 store0 = Inr (fst (insert_rows store0 batch3), 3) \<and>
   length (price_table (fst (insert_rows store0 batch3))) = 3 \<and>
   createMany env_page3 batch3 (fst (insert_rows store0 batch3)) =
     Inr (fst (insert_rows (fst (insert_rows store0 batch3)) batch3), 3) \<and>
   length (price_table (fst (insert_rows (fst (insert_rows store0 batch3)) batch3))) = 6"
proof -
  have n: "length batch3 = 3" by (simp add: batch3_def page3_extract)
  have ok1: "store_ok (fst (insert_rows store0 batch3))"
    using store0_ok by (rule insert_rows_ok)
  have up: "prisma_up env_page3" by (simp add: env_page3_def)
  have l0: "length (price_table store0) = 0" by (simp add: store0_def)
  show ?thesis
    using insert_rows_count [OF store0_ok, of batch3] insert_rows_count [OF ok1, of batch3]
      insert_rows_length [OF store0_ok, of batch3] insert_rows_length [OF ok1, of batch3]
    by (simp add: createMany_def up n l0 prod_eq_iff)
qed

text \<open>
  C5. \<^verbatim>\<open>GET /prices\<close> answers 200 with the rows of the five largest keys, largest first,
  or with all rows when there are fewer than five: the rows are rows of the table, in
  strictly descending order of key, and every row left out has a smaller key than every
  row returned. The store answers the query, and the keys of the table are distinct, as
  the primary key has them.
\<close>

theorem get_prices_newest_five:
  assumes "prisma_up e" and "distinct (map price_id (price_table (db st)))"
  shows "\<exists>rows. snd (get_prices e st) = \<lparr>status = 200, payload = JsonRows rows\<rparr> \<and>
           length rows = min 5 (length (price_table (db st))) \<and>
           set rows \<subseteq> set (price_table (db st)) \<and>
           sorted_wrt (\<lambda>a b. price_id b < price_id a) rows \<and>
           (\<forall>r\<in>set (price_table (db st)). r \<notin> set rows \<longrightarrow>
              (\<forall>x\<in>set rows. price_id r < price_id x))"
proof -
  let ?T = "price_table (db st)"
  let ?rows = "take 5 (rev (sort_key price_id ?T))"
  note d = assms(2)
  have r: "snd (get_prices e st) = \<lparr>status = 200, payload = JsonRows ?rows\<rparr>"
    using assms(1) by (simp add: get_prices_def findMany_take5_desc_def)
  have l: "length ?rows = min 5 (length ?T)" by (simp add: min.commute)
  have s: "set ?rows \<subseteq> set ?T"
    using set_take_subset [of 5 "rev (sort_key price_id ?T)"] by simp
  have o: "sorted_wrt (\<lambda>a b. price_id b < price_id a) ?rows" using d by (rule take_desc)
  have m: "\<forall>r\<in>set ?T. r \<notin> set ?rows \<longrightarrow> (\<forall>x\<in>set ?rows. price_id r < price_id x)"
    using left_out_smaller [OF d] by blast
  from r l s o m show ?thesis by blast
qed

theorem get_prices_newest_five_witness:
  "prisma_up env_page3 \<and> distinct (map price_id (price_table table10)) \<and>
   snd (get_prices env_page3 \<lparr>db = table10, console = []\<rparr>) =
     \<lparr>status = 200, payload = JsonRows (map row_n [10, 9, 8, 7, 6])\<rparr> \<and>
   (\<exists>rows. snd (get_prices env_page3 \<lparr>db = table10, console = []\<rparr>) =
       \<lparr>status = 200, payload = JsonRows rows\<rparr> \<and> length rows = 5)"
proof -
  have u: "prisma_up env_page3" by (simp add: env_page3_def)
  have k: "distinct (map price_id (price_table table10))" by code_simp
  have v: "snd (get_prices env_page3 \<lparr>db = table10, console = []\<rparr>) =
     \<lparr>status = 200, payload = JsonRows (map row_n [10, 9, 8, 7, 6])\<rparr>"
    by code_simp
  have t: "length (price_table table10) = 10" by (simp add: table10_def)
  have "distinct (map price_id (price_table (db \<lparr>db = table10, console = []\<rparr>)))"
    using k by simp
  from get_prices_newest_five [OF u this]
  have "\<exists>rows. snd (get_prices env_page3 \<lparr>db = table10, console = []\<rparr>) =
       \<lparr>status = 200, payload = JsonRows rows\<rparr> \<and> length rows = 5"
    using t by auto
  with u k v show ?thesis by blast
qed

end
